theory Spec2Isabelle
  imports Main "HOL-Library.Multiset"
begin

section \<open>Python strings\<close>

text \<open>
  A Python \<open>str\<close> is modelled as a list of code points below 256, one \<open>char\<close> each
  (the Latin-1 range, which contains ASCII). On this range \<open>str.lower\<close> maps one character
  to one character, and the tables of \<open>str.isalpha\<close>, \<open>str.isspace\<close> and \<open>str.lower\<close>
  are the ones below. Code points from 256 on are outside the model.
\<close>

definition isspace_char :: "char \<Rightarrow> bool" where
  "isspace_char c =
     (let n = (of_char c :: nat)
      in (9 \<le> n \<and> n \<le> 13) \<or> (28 \<le> n \<and> n \<le> 32) \<or> n = 133 \<or> n = 160)"

definition isalpha_char :: "char \<Rightarrow> bool" where
  "isalpha_char c =
     (let n = (of_char c :: nat)
      in (65 \<le> n \<and> n \<le> 90) \<or> (97 \<le> n \<and> n \<le> 122) \<or> n = 170 \<or> n = 181 \<or> n = 186
         \<or> (192 \<le> n \<and> n \<le> 214) \<or> (216 \<le> n \<and> n \<le> 246) \<or> 248 \<le> n)"

definition lower_char :: "char \<Rightarrow> char" where
  "lower_char c =
     (let n = (of_char c :: nat)
      in if (65 \<le> n \<and> n \<le> 90) \<or> (192 \<le> n \<and> n \<le> 214) \<or> (216 \<le> n \<and> n \<le> 222)
         then char_of (n + 32) else c)"

definition lower :: "string \<Rightarrow> string" where
  "lower s = map lower_char s"

text \<open>\<open>s.isalpha()\<close> is false on the empty string.\<close>

definition isalpha :: "string \<Rightarrow> bool" where
  "isalpha s = (s \<noteq> [] \<and> list_all isalpha_char s)"

definition strip :: "string \<Rightarrow> string" where
  "strip s = rev (dropWhile isspace_char (rev (dropWhile isspace_char s)))"

section \<open>The word list\<close>

datatype error = AssertionError | FileNotFoundError | KeyError | NameError

text \<open>
  \<open>open(path, "r")\<close> reads in text mode with universal newlines: \<open>\r\n\<close> and a lone
  \<open>\r\<close> both reach the program as \<open>\n\<close>. Iterating over the file yields the lines, each
  with its terminating \<open>\n\<close> (the last line may have none).
\<close>

fun universal_newlines :: "string \<Rightarrow> string" where
  "universal_newlines [] = []"
| "universal_newlines [c] = (if c = CHR 0x0D then [CHR 0x0A] else [c])"
| "universal_newlines (c # d # cs) =
     (if c = CHR 0x0D \<and> d = CHR 0x0A then CHR 0x0A # universal_newlines cs
      else if c = CHR 0x0D then CHR 0x0A # universal_newlines (d # cs)
      else c # universal_newlines (d # cs))"

fun readlines :: "string \<Rightarrow> string list" where
  "readlines [] = []"
| "readlines (c # cs) =
     (if c = CHR 0x0A then [c] # readlines cs
      else (case readlines cs of [] \<Rightarrow> [[c]] | l # ls \<Rightarrow> (c # l) # ls))"

text \<open>The body of the loop of \<open>load_word_list\<close>: one line, the list \<open>words\<close> so far.\<close>

definition load_line :: "string \<Rightarrow> string list \<Rightarrow> string list" where
  "load_line line words =
     (let w = lower (strip line)
      in if length w = 5 \<and> isalpha w then words @ [w] else words)"

text \<open>
  The file is \<open>None\<close> when it is missing, and \<open>open\<close> raises; otherwise it is its text.
\<close>

definition load_word_list :: "string option \<Rightarrow> error + string list" where
  "load_word_list file =
     (case file of
        None \<Rightarrow> Inl FileNotFoundError
      | Some text \<Rightarrow> Inr (fold load_line (readlines (universal_newlines text)) []))"

section \<open>The session\<close>

record GuessResult =
  word :: string
  pattern :: string

record WordleSession =
  word_list :: "string list"
  history :: "GuessResult list"

definition new_session :: "string list \<Rightarrow> WordleSession" where
  "new_session wl = \<lparr>word_list = wl, history = []\<rparr>"

definition add_guess :: "WordleSession \<Rightarrow> string \<Rightarrow> string \<Rightarrow> WordleSession" where
  "add_guess s w p = s\<lparr>history := history s @ [\<lparr>word = w, pattern = p\<rparr>]\<rparr>"

definition get_history_tuples :: "WordleSession \<Rightarrow> (string \<times> string) list" where
  "get_history_tuples s = map (\<lambda>g. (word g, pattern g)) (history s)"

section \<open>Scoring a guess\<close>

text \<open>
  \<open>xs.index(x)\<close>: the position of the first occurrence. The source calls it only after
  the test \<open>x in xs\<close>, so the \<open>ValueError\<close> of an absent element cannot occur there.
\<close>

fun index_of :: "'a list \<Rightarrow> 'a \<Rightarrow> nat" where
  "index_of [] x = 0"
| "index_of (y # ys) x = (if y = x then 0 else Suc (index_of ys x))"

text \<open>
  The state of the two loops is the pair \<open>(result, secret_chars)\<close>; a consumed letter of
  \<open>secret_chars\<close> is \<open>None\<close>. Each loop runs over \<open>range(5)\<close>.
\<close>

definition mark_green :: "string \<Rightarrow> nat \<Rightarrow> string \<times> char option list \<Rightarrow> string \<times> char option list" where
  "mark_green guess i st =
     (case st of (result, secret_chars) \<Rightarrow>
        if Some (guess ! i) = secret_chars ! i
        then (result[i := CHR ''g''], secret_chars[i := None])
        else (result, secret_chars))"

definition mark_yellow :: "string \<Rightarrow> nat \<Rightarrow> string \<times> char option list \<Rightarrow> string \<times> char option list" where
  "mark_yellow guess i st =
     (case st of (result, secret_chars) \<Rightarrow>
        if result ! i = CHR ''g'' then (result, secret_chars)
        else if Some (guess ! i) \<in> set secret_chars
        then (result[i := CHR ''y''],
              secret_chars[index_of secret_chars (Some (guess ! i)) := None])
        else (result, secret_chars))"

definition score_guess :: "string \<Rightarrow> string \<Rightarrow> error + string" where
  "score_guess secret guess =
     (let secret = lower secret; guess = lower guess
      in if length secret = length guess \<and> length guess = 5
         then Inr (fst (fold (mark_yellow guess) [0..<5]
                          (fold (mark_green guess) [0..<5]
                             (replicate 5 CHR ''b'', map Some secret))))
         else Inl AssertionError)"

section \<open>Filtering the candidates\<close>

fun word_matches_history :: "string \<Rightarrow> (string \<times> string) list \<Rightarrow> error + bool" where
  "word_matches_history candidate [] = Inr True"
| "word_matches_history candidate ((guess, pat) # rest) =
     (case score_guess candidate guess of
        Inl e \<Rightarrow> Inl e
      | Inr p \<Rightarrow> if p \<noteq> pat then Inr False else word_matches_history candidate rest)"

fun filter_candidates :: "string list \<Rightarrow> (string \<times> string) list \<Rightarrow> error + string list" where
  "filter_candidates [] h = Inr []"
| "filter_candidates (w # ws) h =
     (case word_matches_history w h of
        Inl e \<Rightarrow> Inl e
      | Inr b \<Rightarrow>
         (case filter_candidates ws h of
            Inl e \<Rightarrow> Inl e
          | Inr r \<Rightarrow> Inr (if b then w # r else r)))"

definition get_candidates :: "WordleSession \<Rightarrow> error + string list" where
  "get_candidates s = filter_candidates (word_list s) (get_history_tuples s)"

section \<open>The filter as the specification words it\<close>

text \<open>
  Following the specification's words, for comparison with the code: a candidate is
  consistent with a history when, for every record, its recomputed score equals the
  recorded pattern; the filter keeps the consistent words of the vocabulary, in order.
\<close>

definition isConsistent :: "string \<Rightarrow> (string \<times> string) list \<Rightarrow> bool" where
  "isConsistent candidate h = list_all (\<lambda>(g, p). score_guess candidate g = Inr p) h"

definition filter_spec :: "string list \<Rightarrow> (string \<times> string) list \<Rightarrow> string list" where
  "filter_spec V h = filter (\<lambda>c. isConsistent c h) V"

section \<open>The command-line loop\<close>

text \<open>
  One iteration of the loop of \<open>main\<close>, up to the call of \<open>add_guess\<close>: the two lines
  read from standard input are its arguments (the second is read only when the first is
  accepted). \<open>Break\<close> leaves the loop, \<open>Continue\<close> prompts again with the session unchanged.
\<close>

datatype loop_step = Break | Continue | Added WordleSession

definition main_turn :: "WordleSession \<Rightarrow> string \<Rightarrow> string \<Rightarrow> loop_step" where
  "main_turn session guess_input pattern_input =
     (let guess = lower (strip guess_input)
      in if guess = [] then Break
         else if length guess \<noteq> 5 \<or> \<not> isalpha guess then Continue
         else
           (let pat = lower (strip pattern_input)
            in if length pat \<noteq> 5 \<or> list_ex (\<lambda>ch. ch \<notin> set ''gyb'') pat then Continue
               else Added (add_guess session guess pat)))"

section \<open>The page\<close>









section \<open>The two-pass algorithm as the specification words it\<close>

text \<open>
  Following the specification's words, for comparison with \<open>score_guess\<close>: the pattern is
  a list of symbols, and consumption is a flag for every position of the secret. Pass 1
  sets position \<open>i\<close> to green and consumes the secret letter at \<open>i\<close> wherever the two words
  agree. Pass 2, run after it on each position in turn, skips a green position, and
  otherwise looks for the leftmost unconsumed position of the secret holding the guessed
  letter: if there is one, the symbol becomes yellow and that position is consumed.
\<close>

datatype symbol = Green | Yellow | Grey

fun symbol_char :: "symbol \<Rightarrow> char" where
  "symbol_char Green = CHR ''g''"
| "symbol_char Yellow = CHR ''y''"
| "symbol_char Grey = CHR ''b''"

definition exact_matches :: "string \<Rightarrow> string \<Rightarrow> symbol list \<times> bool list" where
  "exact_matches secret guess =
     (map (\<lambda>i. if guess ! i = secret ! i then Green else Grey) [0..<5],
      map (\<lambda>i. guess ! i = secret ! i) [0..<5])"

definition displaced_match :: "string \<Rightarrow> string \<Rightarrow> nat \<Rightarrow> symbol list \<times> bool list \<Rightarrow> symbol list \<times> bool list" where
  "displaced_match secret guess i st =
     (case st of (pat, consumed) \<Rightarrow>
        if pat ! i = Green then (pat, consumed)
        else (case find (\<lambda>j. \<not> consumed ! j \<and> secret ! j = guess ! i) [0..<5] of
                None \<Rightarrow> (pat, consumed)
              | Some j \<Rightarrow> (pat[i := Yellow], consumed[j := True])))"

definition two_pass :: "string \<Rightarrow> string \<Rightarrow> symbol list" where
  "two_pass secret guess =
     fst (fold (displaced_match secret guess) [0..<5] (exact_matches secret guess))"

text \<open>
  The relation between the state of the source's loops and the state above, used to
  compare them step by step.
\<close>

definition pass_rel :: "string \<Rightarrow> string \<times> char option list \<Rightarrow> symbol list \<times> bool list \<Rightarrow> bool" where
  "pass_rel secret st sp =
     (case st of (result, secret_chars) \<Rightarrow> case sp of (pat, consumed) \<Rightarrow>
        length pat = 5 \<and> length consumed = 5 \<and> result = map symbol_char pat \<and>
        secret_chars = map (\<lambda>j. if consumed ! j then None else Some (secret ! j)) [0..<5])"

section \<open>The letters still available\<close>

text \<open>
  The letters of \<open>secret_chars\<close> that are not yet consumed, as a multiset: what the test
  \<open>guess[i] in secret_chars\<close> of the second pass looks into.
\<close>

definition unconsumed :: "char option list \<Rightarrow> char multiset" where
  "unconsumed secret_chars = image_mset the (filter_mset (\<lambda>x. x \<noteq> None) (mset secret_chars))"

section \<open>Facts about the strings\<close>

lemma length_lower [simp]: "length (lower s) = length s"
  by (simp add: lower_def)

lemma lower_char_idem [simp]: "lower_char (lower_char c) = lower_char c"
  by (auto simp add: lower_char_def Let_def)

lemma lower_idem [simp]: "lower (lower s) = lower s"
  by (simp add: lower_def)

section \<open>The first pass\<close>

lemma first_pass_upto:
  assumes "length secret = 5" and "n \<le> 5"
  shows "fold (mark_green guess) [0..<n] (replicate 5 CHR ''b'', map Some secret) =
         (map (\<lambda>i. if i < n \<and> guess ! i = secret ! i then CHR ''g'' else CHR ''b'') [0..<5],
          map (\<lambda>i. if i < n \<and> guess ! i = secret ! i then None else Some (secret ! i)) [0..<5])"
  using assms(2)
proof (induction n)
  case 0
  have "map Some secret = map (\<lambda>i. Some (secret ! i)) [0..<5]"
    using assms(1) by (intro nth_equalityI) simp_all
  moreover have "replicate 5 CHR ''b'' = map (\<lambda>i. CHR ''b'') [0..<5]"
    by (intro nth_equalityI) simp_all
  ultimately show ?case by simp
next
  case (Suc n)
  then have n: "n < 5" by simp
  have "fold (mark_green guess) [0..<Suc n] (replicate 5 CHR ''b'', map Some secret) =
        mark_green guess n (fold (mark_green guess) [0..<n] (replicate 5 CHR ''b'', map Some secret))"
    by simp
  also have "\<dots> = mark_green guess n
      (map (\<lambda>i. if i < n \<and> guess ! i = secret ! i then CHR ''g'' else CHR ''b'') [0..<5],
       map (\<lambda>i. if i < n \<and> guess ! i = secret ! i then None else Some (secret ! i)) [0..<5])"
    using Suc by simp
  also have "\<dots> =
      (map (\<lambda>i. if i < Suc n \<and> guess ! i = secret ! i then CHR ''g'' else CHR ''b'') [0..<5],
       map (\<lambda>i. if i < Suc n \<and> guess ! i = secret ! i then None else Some (secret ! i)) [0..<5])"
    using n by (auto simp add: mark_green_def less_Suc_eq intro!: nth_equalityI simp: nth_list_update)
  finally show ?case .
qed

lemma first_pass:
  assumes "length secret = 5"
  shows "fold (mark_green guess) [0..<5] (replicate 5 CHR ''b'', map Some secret) =
         (map (\<lambda>i. if guess ! i = secret ! i then CHR ''g'' else CHR ''b'') [0..<5],
          map (\<lambda>i. if guess ! i = secret ! i then None else Some (secret ! i)) [0..<5])"
proof -
  have "fold (mark_green guess) [0..<5] (replicate 5 CHR ''b'', map Some secret) =
         (map (\<lambda>i. if i < 5 \<and> guess ! i = secret ! i then CHR ''g'' else CHR ''b'') [0..<5],
          map (\<lambda>i. if i < 5 \<and> guess ! i = secret ! i then None else Some (secret ! i)) [0..<5])"
    using first_pass_upto [OF assms, of 5 guess] by simp
  then show ?thesis by simp
qed

section \<open>The second pass on green positions\<close>

lemma mark_yellow_green:
  "result ! i = CHR ''g'' \<Longrightarrow> mark_yellow guess i (result, sc) = (result, sc)"
  by (simp add: mark_yellow_def)

lemma second_pass_all_green:
  "\<forall>i \<in> set js. result ! i = CHR ''g'' \<Longrightarrow>
   fold (mark_yellow guess) js (result, sc) = (result, sc)"
  by (induction js) (simp_all add: mark_yellow_green)

section \<open>Scoring a word against itself\<close>

text \<open>
  C5. For every 5-letter word \<open>W\<close>, \<open>score_guess(W, W)\<close> returns the all-green pattern
  \<open>"ggggg"\<close>.
\<close>

theorem score_guess_self:
  assumes "length W = 5"
  shows "score_guess W W = Inr ''ggggg''"
proof -
  let ?w = "lower W"
  have len: "length ?w = 5" using assms by simp
  have p1: "fold (mark_green ?w) [0..<5] (replicate 5 CHR ''b'', map Some ?w) =
            (map (\<lambda>i. CHR ''g'') [0..<5], map (\<lambda>i. None) [0..<5])"
    using first_pass [OF len, of ?w] by simp
  have p2: "fold (mark_yellow ?w) [0..<5] (map (\<lambda>i. CHR ''g'') [0..<5], map (\<lambda>i. None) [0..<5]) =
            (map (\<lambda>i. CHR ''g'') [0..<5], map (\<lambda>i. None) [0..<5])"
    by (rule second_pass_all_green) simp
  have "map (\<lambda>i::nat. CHR ''g'') [0..<5] = ''ggggg''"
    by (simp add: upt_rec)
  then show ?thesis
    using len p1 p2 by (simp add: score_guess_def)
qed

theorem score_guess_self_witness:
  "length ''crane'' = 5 \<and> score_guess ''crane'' ''crane'' = Inr ''ggggg''"
  using score_guess_self [of "''crane''"] by simp

section \<open>Running the filter\<close>

lemma score_guess_raises_iff:
  "score_guess c g = Inl e \<longleftrightarrow> e = AssertionError \<and> (length (lower c) \<noteq> 5 \<or> length (lower g) \<noteq> 5)"
  by (auto simp add: score_guess_def Let_def)

lemma score_guess_total:
  "length c = 5 \<Longrightarrow> length g = 5 \<Longrightarrow> \<exists>p. score_guess c g = Inr p"
  by (simp add: score_guess_def Let_def)

lemma wmh_total:
  "length c = 5 \<Longrightarrow> \<forall>(g, p) \<in> set h. length g = 5 \<Longrightarrow> \<exists>b. word_matches_history c h = Inr b"
proof (induction h)
  case Nil
  then show ?case by auto
next
  case (Cons r h)
  obtain g p where r: "r = (g, p)" by (cases r)
  with Cons.prems have "length g = 5" by simp
  then obtain q where q: "score_guess c g = Inr q"
    using score_guess_total Cons.prems(1) by blast
  from Cons obtain b where "word_matches_history c h = Inr b" by auto
  then show ?case using q r by auto
qed

lemma wmh_True_iff:
  "word_matches_history c h = Inr True \<longleftrightarrow> isConsistent c h"
  by (induction h) (auto simp add: isConsistent_def split: sum.splits if_splits)

lemma wmh_append:
  "word_matches_history c (h @ [r]) =
     (case word_matches_history c h of
        Inl e \<Rightarrow> Inl e
      | Inr b \<Rightarrow> if b then word_matches_history c [r] else Inr False)"
  by (induction h) (auto split: sum.splits)

lemma wmh_raises_iff:
  "word_matches_history c h = Inl e \<longleftrightarrow>
     (\<exists>h1 g p h2. h = h1 @ (g, p) # h2 \<and> isConsistent c h1 \<and> score_guess c g = Inl e)"
proof (induction h)
  case Nil
  then show ?case by simp
next
  case (Cons r h)
  obtain g p where r: "r = (g, p)" by (cases r)
  show ?case
  proof (cases "score_guess c g")
    case (Inl e')
    have "isConsistent c []" by (simp add: isConsistent_def)
    then have "e = e' \<Longrightarrow> \<exists>h1 g' p' h2. (g, p) # h = h1 @ (g', p') # h2 \<and> isConsistent c h1 \<and> score_guess c g' = Inl e"
      using Inl by (metis append_Nil)
    moreover have "e = e'"
      if "(g, p) # h = h1 @ (g', p') # h2" "isConsistent c h1" "score_guess c g' = Inl e" for h1 g' p' h2
      using that Inl by (cases h1) (auto simp add: isConsistent_def)
    ultimately show ?thesis using Inl r by auto
  next
    case (Inr q)
    show ?thesis
    proof (cases "q = p")
      case False
      have "\<not> ((g, p) # h = h1 @ (g', p') # h2 \<and> isConsistent c h1 \<and> score_guess c g' = Inl e)" for h1 g' p' h2
        using Inr False by (cases h1) (auto simp add: isConsistent_def)
      then show ?thesis using Inr False r by auto
    next
      case True
      have "(\<exists>h1 g' p' h2. (g, p) # h = h1 @ (g', p') # h2 \<and> isConsistent c h1 \<and> score_guess c g' = Inl e)
            \<longleftrightarrow> (\<exists>h1 g' p' h2. h = h1 @ (g', p') # h2 \<and> isConsistent c h1 \<and> score_guess c g' = Inl e)"
        (is "?L \<longleftrightarrow> ?R")
      proof
        assume ?L
        then obtain h1 g' p' h2 where *: "(g, p) # h = h1 @ (g', p') # h2" "isConsistent c h1" "score_guess c g' = Inl e"
          by blast
        show ?R
        proof (cases h1)
          case Nil
          then show ?thesis using * Inr by simp
        next
          case (Cons a h1')
          then have "h = h1' @ (g', p') # h2" "isConsistent c h1'"
            using * by (simp_all add: isConsistent_def)
          then show ?thesis using *(3) by blast
        qed
      next
        assume ?R
        then obtain h1 g' p' h2 where *: "h = h1 @ (g', p') # h2" "isConsistent c h1" "score_guess c g' = Inl e"
          by blast
        then have "(g, p) # h = ((g, p) # h1) @ (g', p') # h2" "isConsistent c ((g, p) # h1)"
          using Inr True by (simp_all add: isConsistent_def)
        then show ?L using *(3) by blast
      qed
      then show ?thesis using Inr True r Cons.IH by simp
    qed
  qed
qed

lemma filter_candidates_Inr_iff:
  "filter_candidates V h = Inr R \<longleftrightarrow>
     (\<forall>w \<in> set V. \<exists>b. word_matches_history w h = Inr b) \<and>
     R = filter (\<lambda>w. word_matches_history w h = Inr True) V"
proof (induction V arbitrary: R)
  case Nil
  then show ?case by auto
next
  case (Cons w V)
  show ?case
  proof (cases "word_matches_history w h")
    case (Inl e)
    then show ?thesis by auto
  next
    case b: (Inr b)
    show ?thesis
    proof (cases "filter_candidates V h")
      case (Inl e)
      then have "\<not> (\<forall>w \<in> set V. \<exists>b. word_matches_history w h = Inr b)"
        using Cons.IH [of "filter (\<lambda>w. word_matches_history w h = Inr True) V"] by simp
      then show ?thesis using b Inl by auto
    next
      case (Inr R0)
      then have "(\<forall>w \<in> set V. \<exists>b. word_matches_history w h = Inr b) \<and>
                 R0 = filter (\<lambda>w. word_matches_history w h = Inr True) V"
        using Cons.IH [of R0] by simp
      then show ?thesis using b Inr by auto
    qed
  qed
qed

lemma filter_candidates_Inl_iff:
  "filter_candidates V h = Inl AssertionError \<longleftrightarrow>
     (\<exists>w \<in> set V. word_matches_history w h = Inl AssertionError)"
proof -
  have e: "word_matches_history w h = Inl e \<Longrightarrow> e = AssertionError" for w e
    by (auto simp add: wmh_raises_iff score_guess_raises_iff)
  have f: "filter_candidates V h = Inl e \<Longrightarrow> e = AssertionError" for e
    by (induction V) (auto split: sum.splits dest: e)
  show ?thesis
  proof (cases "filter_candidates V h")
    case (Inl e)
    then have "\<not> (\<forall>w \<in> set V. \<exists>b. word_matches_history w h = Inr b)"
      using filter_candidates_Inr_iff [of V h] by auto
    then obtain w where "w \<in> set V" "\<forall>b. word_matches_history w h \<noteq> Inr b" by blast
    then have "w \<in> set V" "word_matches_history w h = Inl AssertionError"
      using e by (cases "word_matches_history w h"; auto)+
    then show ?thesis using Inl f by auto
  next
    case (Inr R)
    then show ?thesis using filter_candidates_Inr_iff [of V h R] by auto
  qed
qed

lemma filter_candidates_total:
  assumes "\<forall>w \<in> set V. length w = 5" and "\<forall>(g, p) \<in> set h. length g = 5"
  shows "\<exists>R. filter_candidates V h = Inr R"
  using assms wmh_total by (simp add: filter_candidates_Inr_iff)

section \<open>The filter against its specification\<close>

text \<open>
  C2. Whenever \<open>filter_candidates(V, h)\<close> returns, its result is the sub-sequence of
  \<open>V\<close>, in the order of \<open>V\<close>, of the words whose score of every recorded guess equals
  the recorded pattern; it does return when every vocabulary word and every recorded guess
  has five letters; and on the empty history it returns \<open>V\<close> itself.
\<close>

theorem filter_candidates_refines_spec:
  "(\<forall>R. filter_candidates V h = Inr R \<longrightarrow> R = filter_spec V h) \<and>
   ((\<forall>w \<in> set V. length w = 5) \<and> (\<forall>(g, p) \<in> set h. length g = 5) \<longrightarrow>
      filter_candidates V h = Inr (filter_spec V h)) \<and>
   filter_candidates V [] = Inr V"
proof (intro conjI allI impI)
  fix R
  assume "filter_candidates V h = Inr R"
  then show "R = filter_spec V h"
    by (simp add: filter_candidates_Inr_iff wmh_True_iff filter_spec_def)
next
  assume "(\<forall>w \<in> set V. length w = 5) \<and> (\<forall>(g, p) \<in> set h. length g = 5)"
  then obtain R where "filter_candidates V h = Inr R"
    using filter_candidates_total [of V h] by blast
  then show "filter_candidates V h = Inr (filter_spec V h)"
    by (simp add: filter_candidates_Inr_iff wmh_True_iff filter_spec_def)
next
  show "filter_candidates V [] = Inr V"
    by (induction V) simp_all
qed

theorem filter_candidates_refines_spec_witness:
  "filter_candidates [''crane'', ''slate'', ''trace'', ''grape''] [(''crane'', ''ggggg'')] =
     Inr (filter_spec [''crane'', ''slate'', ''trace'', ''grape''] [(''crane'', ''ggggg'')]) \<and>
   filter_spec [''crane'', ''slate'', ''trace'', ''grape''] [(''crane'', ''ggggg'')] = [''crane'']"
proof -
  have v: "filter_spec [''crane'', ''slate'', ''trace'', ''grape''] [(''crane'', ''ggggg'')] = [''crane'']"
    by code_simp
  have h1: "\<forall>w \<in> set [''crane'', ''slate'', ''trace'', ''grape'']. length w = 5"
    by simp
  have h2: "\<forall>(g, p) \<in> set [(''crane'', ''ggggg'')]. length g = 5"
    by simp
  have "filter_candidates [''crane'', ''slate'', ''trace'', ''grape''] [(''crane'', ''ggggg'')] =
     Inr (filter_spec [''crane'', ''slate'', ''trace'', ''grape''] [(''crane'', ''ggggg'')])"
    using filter_candidates_refines_spec
      [of "[''crane'', ''slate'', ''trace'', ''grape'']" "[(''crane'', ''ggggg'')]"] h1 h2
    by blast
  then show ?thesis
    using v by blast
qed

lemma filter_candidates_again:
  "filter_candidates V h = Inr R \<Longrightarrow> filter_candidates R h = Inr R"
proof -
  assume a: "filter_candidates V h = Inr R"
  then have R: "R = filter (\<lambda>w. word_matches_history w h = Inr True) V"
    by (simp add: filter_candidates_Inr_iff)
  then have "\<forall>w \<in> set R. word_matches_history w h = Inr True" by simp
  then have "(\<forall>w \<in> set R. \<exists>b. word_matches_history w h = Inr b) \<and>
             R = filter (\<lambda>w. word_matches_history w h = Inr True) R"
    by (auto simp add: filter_id_conv)
  then show ?thesis using filter_candidates_Inr_iff [of R h R] by blast
qed

text \<open>
  C6. The filter is idempotent: whenever \<open>filter_candidates(V, h)\<close> returns, filtering its
  result again with the same history returns the identical list; and it does return when
  every vocabulary word and every recorded guess has five letters.
\<close>

theorem filter_candidates_idempotent:
  "(\<forall>R. filter_candidates V h = Inr R \<longrightarrow> filter_candidates R h = Inr R) \<and>
   ((\<forall>w \<in> set V. length w = 5) \<and> (\<forall>(g, p) \<in> set h. length g = 5) \<longrightarrow>
      (\<exists>R. filter_candidates V h = Inr R \<and> filter_candidates R h = Inr R))"
  using filter_candidates_again [of V h] filter_candidates_total [of V h] by blast

theorem filter_candidates_idempotent_witness:
  "filter_candidates [''crane'', ''slate'', ''trace'', ''grape''] [(''slate'', ''bbgbg'')] =
     Inr [''crane'', ''grape''] \<and>
   filter_candidates [''crane'', ''grape''] [(''slate'', ''bbgbg'')] = Inr [''crane'', ''grape'']"
proof -
  have v: "filter_candidates [''crane'', ''slate'', ''trace'', ''grape''] [(''slate'', ''bbgbg'')] =
     Inr [''crane'', ''grape'']"
    by code_simp
  show ?thesis
    using v filter_candidates_idempotent
      [of "[''crane'', ''slate'', ''trace'', ''grape'']" "[(''slate'', ''bbgbg'')]"]
    by blast
qed

lemma filter_candidates_append:
  assumes "filter_candidates V (h @ [r]) = Inr R'"
  shows "\<exists>R. filter_candidates V h = Inr R \<and> set R' \<subseteq> set R \<and> length R' \<le> length R"
proof -
  let ?P = "\<lambda>w. word_matches_history w h = Inr True"
  let ?P' = "\<lambda>w. word_matches_history w (h @ [r]) = Inr True"
  from assms have all: "\<forall>w \<in> set V. \<exists>b. word_matches_history w (h @ [r]) = Inr b"
    and R': "R' = filter ?P' V"
    by (simp_all add: filter_candidates_Inr_iff)
  have ret: "\<exists>b. word_matches_history w h = Inr b" if "w \<in> set V" for w
    using all that by (cases "word_matches_history w h") (auto simp add: wmh_append)
  have imp: "?P w" if "?P' w" for w
    using that by (cases "word_matches_history w h") (auto simp add: wmh_append split: if_splits)
  have "R' = filter ?P' (filter ?P V)"
    unfolding R' filter_filter by (rule filter_cong) (auto dest: imp)
  then have "set R' \<subseteq> set (filter ?P V)" "length R' \<le> length (filter ?P V)"
    by (metis filter_is_subset, metis length_filter_le)
  moreover have "filter_candidates V h = Inr (filter ?P V)"
    using ret by (simp add: filter_candidates_Inr_iff)
  ultimately show ?thesis by blast
qed

text \<open>
  C7. Appending a record to the history never adds a candidate: whenever the filter
  returns for \<open>h @ [r]\<close> it returns for \<open>h\<close>, the candidates for \<open>h @ [r]\<close> are among the
  candidates for \<open>h\<close>, and they are no more numerous; and it does return for both when
  every vocabulary word and every recorded guess has five letters.
\<close>

theorem filter_candidates_antitone:
  "(\<forall>R'. filter_candidates V (h @ [r]) = Inr R' \<longrightarrow>
      (\<exists>R. filter_candidates V h = Inr R \<and> set R' \<subseteq> set R \<and> length R' \<le> length R)) \<and>
   ((\<forall>w \<in> set V. length w = 5) \<and> (\<forall>(g, p) \<in> set (h @ [r]). length g = 5) \<longrightarrow>
      (\<exists>R R'. filter_candidates V h = Inr R \<and> filter_candidates V (h @ [r]) = Inr R' \<and>
         set R' \<subseteq> set R \<and> length R' \<le> length R))"
  using filter_candidates_append [of V h r] filter_candidates_total [of V "h @ [r]"] by blast

theorem filter_candidates_antitone_witness:
  "filter_candidates [''crane'', ''slate'', ''trace'', ''grape''] ([(''slate'', ''bbgbg'')] @ [(''grape'', ''bggbg'')]) =
     Inr [''crane''] \<and>
   (\<exists>R. filter_candidates [''crane'', ''slate'', ''trace'', ''grape''] [(''slate'', ''bbgbg'')] = Inr R \<and>
        set [''crane''] \<subseteq> set R \<and> length [''crane''] \<le> length R)"
proof -
  have v: "filter_candidates [''crane'', ''slate'', ''trace'', ''grape'']
             ([(''slate'', ''bbgbg'')] @ [(''grape'', ''bggbg'')]) = Inr [''crane'']"
    by code_simp
  show ?thesis
    using v filter_candidates_antitone
      [of "[''crane'', ''slate'', ''trace'', ''grape'']" "[(''slate'', ''bbgbg'')]" "(''grape'', ''bggbg'')"]
    by blast
qed

section \<open>The session and the length assertion\<close>

lemma get_candidates_raises_iff:
  "get_candidates s = Inl AssertionError \<longleftrightarrow>
     (\<exists>c \<in> set (word_list s). \<exists>h1 r h2. history s = h1 @ r # h2 \<and>
        (\<forall>q \<in> set h1. score_guess c (word q) = Inr (pattern q)) \<and>
        (length (lower c) \<noteq> 5 \<or> length (lower (word r)) \<noteq> 5))"
  (is "?L \<longleftrightarrow> ?R")
proof
  assume ?L
  then obtain c where c: "c \<in> set (word_list s)"
      "word_matches_history c (get_history_tuples s) = Inl AssertionError"
    by (auto simp add: get_candidates_def filter_candidates_Inl_iff)
  then obtain t1 g p t2 where t: "get_history_tuples s = t1 @ (g, p) # t2"
      "isConsistent c t1" "score_guess c g = Inl AssertionError"
    by (auto simp add: wmh_raises_iff)
  from t(1) obtain h1 r h2 where h: "history s = h1 @ r # h2"
      "t1 = map (\<lambda>g. (word g, pattern g)) h1" "(g, p) = (word r, pattern r)"
    unfolding get_history_tuples_def
    by (auto simp add: map_eq_append_conv map_eq_Cons_conv)
  have "\<forall>q \<in> set h1. score_guess c (word q) = Inr (pattern q)"
    using t(2) h(2) by (simp add: isConsistent_def list_all_iff)
  moreover have "length (lower c) \<noteq> 5 \<or> length (lower (word r)) \<noteq> 5"
    using t(3) h(3) by (simp add: score_guess_raises_iff)
  ultimately show ?R using c(1) h(1) by blast
next
  assume ?R
  then obtain c h1 r h2 where c: "c \<in> set (word_list s)" and h: "history s = h1 @ r # h2"
    and ok: "\<forall>q \<in> set h1. score_guess c (word q) = Inr (pattern q)"
    and bad: "length (lower c) \<noteq> 5 \<or> length (lower (word r)) \<noteq> 5"
    by blast
  have "get_history_tuples s =
          map (\<lambda>g. (word g, pattern g)) h1 @ (word r, pattern r) # map (\<lambda>g. (word g, pattern g)) h2"
    using h by (simp add: get_history_tuples_def)
  moreover have "isConsistent c (map (\<lambda>g. (word g, pattern g)) h1)"
    using ok by (simp add: isConsistent_def list_all_iff)
  moreover have "score_guess c (word r) = Inl AssertionError"
    using bad by (simp add: score_guess_raises_iff)
  ultimately have "word_matches_history c (get_history_tuples s) = Inl AssertionError"
    unfolding wmh_raises_iff by blast
  then show ?L
    using c by (auto simp add: get_candidates_def filter_candidates_Inl_iff)
qed

lemma get_candidates_error:
  assumes "get_candidates s = Inl e"
  shows "e = AssertionError"
proof -
  have w: "word_matches_history c h = Inl e' \<Longrightarrow> e' = AssertionError" for c h e'
    by (auto simp add: wmh_raises_iff score_guess_raises_iff)
  have "filter_candidates V h = Inl e' \<Longrightarrow> e' = AssertionError" for V h e'
    by (induction V) (auto split: sum.splits dest: w)
  then show ?thesis using assms by (simp add: get_candidates_def)
qed

lemma get_candidates_total:
  assumes "\<forall>c \<in> set (word_list s). length (lower c) = 5"
    and "\<forall>r \<in> set (history s). length (lower (word r)) = 5"
  shows "\<exists>R. get_candidates s = Inr R"
proof (cases "get_candidates s")
  case (Inl e)
  then have "get_candidates s = Inl AssertionError"
    using get_candidates_error by blast
  then obtain c h1 r h2 where "c \<in> set (word_list s)" "history s = h1 @ r # h2"
      "length (lower c) \<noteq> 5 \<or> length (lower (word r)) \<noteq> 5"
    unfolding get_candidates_raises_iff by blast
  moreover from this have "r \<in> set (history s)" by simp
  ultimately show ?thesis using assms by blast
next
  case (Inr R)
  then show ?thesis by blast
qed

lemma add_guess_history:
  "history (add_guess s w p) = history s @ [\<lparr>word = w, pattern = p\<rparr>]"
  by (simp add: add_guess_def)

text \<open>
  C10, as amended. \<open>add_guess\<close> appends the record exactly as given. \<open>get_candidates\<close> raises
  the \<open>AssertionError\<close> of \<open>score_guess\<close> exactly when some vocabulary word reaches a record
  where its own lowercased length or the guess's is not 5, every earlier record matching
  that word; so it raises when the vocabulary is not empty and the first guess is
  malformed, and a malformed guess behind a record that rejects every word is never
  scored. When every vocabulary word and every stored guess has lowercased length 5,
  \<open>get_candidates\<close> returns a list.
\<close>

theorem get_candidates_assertion:
  "history (add_guess s w p) = history s @ [\<lparr>word = w, pattern = p\<rparr>] \<and>
   (get_candidates s = Inl AssertionError \<longleftrightarrow>
      (\<exists>c \<in> set (word_list s). \<exists>h1 r h2. history s = h1 @ r # h2 \<and>
         (\<forall>q \<in> set h1. score_guess c (word q) = Inr (pattern q)) \<and>
         (length (lower c) \<noteq> 5 \<or> length (lower (word r)) \<noteq> 5))) \<and>
   (word_list s \<noteq> [] \<and> history s \<noteq> [] \<and> length (lower (word (hd (history s)))) \<noteq> 5 \<longrightarrow>
      get_candidates s = Inl AssertionError) \<and>
   ((\<forall>c \<in> set (word_list s). length (lower c) = 5) \<and>
    (\<forall>r \<in> set (history s). length (lower (word r)) = 5) \<longrightarrow>
      (\<exists>R. get_candidates s = Inr R))"
proof (intro conjI impI)
  show "history (add_guess s w p) = history s @ [\<lparr>word = w, pattern = p\<rparr>]"
    by (rule add_guess_history)
next
  show "get_candidates s = Inl AssertionError \<longleftrightarrow>
      (\<exists>c \<in> set (word_list s). \<exists>h1 r h2. history s = h1 @ r # h2 \<and>
         (\<forall>q \<in> set h1. score_guess c (word q) = Inr (pattern q)) \<and>
         (length (lower c) \<noteq> 5 \<or> length (lower (word r)) \<noteq> 5))"
    by (rule get_candidates_raises_iff)
next
  assume a: "word_list s \<noteq> [] \<and> history s \<noteq> [] \<and> length (lower (word (hd (history s)))) \<noteq> 5"
  then obtain c where c: "c \<in> set (word_list s)" by (cases "word_list s") auto
  from a obtain r h2 where h: "history s = [] @ r # h2" by (cases "history s") auto
  with a have "length (lower (word r)) \<noteq> 5" by simp
  moreover have "\<forall>q \<in> set []. score_guess c (word q) = Inr (pattern q)" by simp
  ultimately show "get_candidates s = Inl AssertionError"
    unfolding get_candidates_raises_iff using c h by blast
next
  assume "(\<forall>c \<in> set (word_list s). length (lower c) = 5) \<and>
          (\<forall>r \<in> set (history s). length (lower (word r)) = 5)"
  then show "\<exists>R. get_candidates s = Inr R"
    using get_candidates_total by blast
qed

theorem get_candidates_assertion_witness:
  "get_candidates (add_guess (new_session [''crane'']) ''abc'' ''bbb'') = Inl AssertionError \<and>
   (\<exists>R. get_candidates (add_guess (new_session [''crane'', ''slate'']) ''slate'' ''bbgbg'') = Inr R)"
proof -
  let ?s = "add_guess (new_session [''crane'']) ''abc'' ''bbb''"
  let ?t = "add_guess (new_session [''crane'', ''slate'']) ''slate'' ''bbgbg''"
  have "word_list ?s \<noteq> [] \<and> history ?s \<noteq> [] \<and> length (lower (word (hd (history ?s)))) \<noteq> 5"
    by (simp add: add_guess_def new_session_def)
  then have 1: "get_candidates ?s = Inl AssertionError"
    using get_candidates_assertion [of ?s "''abc''" "''bbb''"] by blast
  have "(\<forall>c \<in> set (word_list ?t). length (lower c) = 5) \<and>
        (\<forall>r \<in> set (history ?t). length (lower (word r)) = 5)"
    by (simp add: add_guess_def new_session_def)
  then have 2: "\<exists>R. get_candidates ?t = Inr R"
    using get_candidates_assertion [of ?t "''abc''" "''bbb''"] by blast
  show ?thesis using 1 2 by blast
qed

text \<open>
  The history below contains the three-letter guess \<open>abc\<close>, the vocabulary is not empty,
  and \<open>get_candidates\<close> returns the empty list: the first record rejects \<open>crane\<close> before
  \<open>abc\<close> is scored.
\<close>

theorem get_candidates_short_circuit_counterexample:
  "history (add_guess (add_guess (new_session [''crane'']) ''slate'' ''ggggg'') ''abc'' ''bbb'') =
     [\<lparr>word = ''slate'', pattern = ''ggggg''\<rparr>, \<lparr>word = ''abc'', pattern = ''bbb''\<rparr>] \<and>
   length (lower ''abc'') \<noteq> 5 \<and>
   word_list (add_guess (add_guess (new_session [''crane'']) ''slate'' ''ggggg'') ''abc'' ''bbb'') = [''crane''] \<and>
   get_candidates (add_guess (add_guess (new_session [''crane'']) ''slate'' ''ggggg'') ''abc'' ''bbb'') = Inr []"
  by code_simp

section \<open>Adding a guess\<close>

text \<open>
  C3, as amended. \<open>add_guess\<close> validates nothing and normalises nothing: it appends the
  record as given and leaves the word list alone. The checks are in the loop of \<open>main\<close>,
  on the trimmed, lowercased inputs: a blank guess leaves the loop; a guess of five
  alphabetic characters with a pattern of five symbols among \<open>g\<close>, \<open>y\<close>, \<open>b\<close> is passed to
  \<open>add_guess\<close>, trimmed and lowercased; every other input makes the loop prompt again,
  and \<open>add_guess\<close> is not called.
\<close>

theorem add_guess_verbatim:
  "history (add_guess s w p) = history s @ [\<lparr>word = w, pattern = p\<rparr>] \<and>
   word_list (add_guess s w p) = word_list s \<and>
   (main_turn s guess_input pattern_input = Break \<longleftrightarrow> lower (strip guess_input) = []) \<and>
   (\<forall>s'. main_turn s guess_input pattern_input = Added s' \<longleftrightarrow>
      s' = add_guess s (lower (strip guess_input)) (lower (strip pattern_input)) \<and>
      length (lower (strip guess_input)) = 5 \<and> isalpha (lower (strip guess_input)) \<and>
      length (lower (strip pattern_input)) = 5 \<and>
      set (lower (strip pattern_input)) \<subseteq> {CHR ''g'', CHR ''y'', CHR ''b''}) \<and>
   (main_turn s guess_input pattern_input = Continue \<longleftrightarrow>
      lower (strip guess_input) \<noteq> [] \<and>
      \<not> (length (lower (strip guess_input)) = 5 \<and> isalpha (lower (strip guess_input)) \<and>
         length (lower (strip pattern_input)) = 5 \<and>
         set (lower (strip pattern_input)) \<subseteq> {CHR ''g'', CHR ''y'', CHR ''b''}))"
proof -
  let ?g = "lower (strip guess_input)" and ?p = "lower (strip pattern_input)"
  have ex: "list_ex (\<lambda>ch. ch \<notin> set ''gyb'') ?p \<longleftrightarrow>
            \<not> set ?p \<subseteq> {CHR ''g'', CHR ''y'', CHR ''b''}"
    by (auto simp add: list_ex_iff)
  have m: "main_turn s guess_input pattern_input =
        (if ?g = [] then Break
         else if length ?g = 5 \<and> isalpha ?g \<and> length ?p = 5 \<and>
                 set ?p \<subseteq> {CHR ''g'', CHR ''y'', CHR ''b''}
              then Added (add_guess s ?g ?p) else Continue)"
    unfolding main_turn_def Let_def ex by simp
  have ne: "?g \<noteq> []" if "length ?g = 5"
    using that by (metis list.size(3) zero_neq_numeral)
  show ?thesis
    unfolding m using ne by (auto simp add: add_guess_def)
qed

theorem add_guess_verbatim_witness:
  "main_turn (new_session [''crane'']) '' Slate '' ''BBGBG'' =
     Added (add_guess (new_session [''crane'']) ''slate'' ''bbgbg'') \<and>
   main_turn (new_session [''crane'']) ''  '' ''bbgbg'' = Break \<and>
   main_turn (new_session [''crane'']) ''abc'' ''bbgbg'' = Continue \<and>
   main_turn (new_session [''crane'']) ''slate'' ''bbxbg'' = Continue \<and>
   history (add_guess (new_session [''crane'']) ''slate'' ''bbgbg'') =
     [\<lparr>word = ''slate'', pattern = ''bbgbg''\<rparr>]"
proof -
  let ?s = "new_session [''crane'']"
  have e: "lower (strip '' Slate '') = ''slate''" "lower (strip ''BBGBG'') = ''bbgbg''"
    "lower (strip ''  '') = []" "lower (strip ''abc'') = ''abc''"
    "lower (strip ''slate'') = ''slate''" "lower (strip ''bbgbg'') = ''bbgbg''"
    "lower (strip ''bbxbg'') = ''bbxbg''"
    by code_simp+
  have a: "isalpha ''slate''"
    by code_simp
  have 1: "main_turn ?s '' Slate '' ''BBGBG'' = Added (add_guess ?s ''slate'' ''bbgbg'')"
    using add_guess_verbatim [of ?s "''slate''" "''bbgbg''" "'' Slate ''" "''BBGBG''"] a
    unfolding e by simp
  have 2: "main_turn ?s ''  '' ''bbgbg'' = Break"
    using add_guess_verbatim [of ?s "''slate''" "''bbgbg''" "''  ''" "''bbgbg''"]
    unfolding e by blast
  have 3: "main_turn ?s ''abc'' ''bbgbg'' = Continue"
    using add_guess_verbatim [of ?s "''slate''" "''bbgbg''" "''abc''" "''bbgbg''"]
    unfolding e by simp
  have 4: "main_turn ?s ''slate'' ''bbxbg'' = Continue"
    using add_guess_verbatim [of ?s "''slate''" "''bbgbg''" "''slate''" "''bbxbg''"]
    unfolding e by simp
  have 5: "history (add_guess ?s ''slate'' ''bbgbg'') = [\<lparr>word = ''slate'', pattern = ''bbgbg''\<rparr>]"
    using add_guess_verbatim [of ?s "''slate''" "''bbgbg''" "''slate''" "''bbxbg''"]
    by (simp add: new_session_def)
  show ?thesis using 1 2 3 4 5 by blast
qed

text \<open>
  A three-letter uppercase word and a two-symbol pattern outside the alphabet are stored
  as they are.
\<close>

theorem add_guess_no_validation_counterexample:
  "history (add_guess (new_session [''crane'']) ''ABC'' ''zz'') = [\<lparr>word = ''ABC'', pattern = ''zz''\<rparr>] \<and>
   length ''ABC'' \<noteq> 5 \<and> lower ''ABC'' \<noteq> ''ABC'' \<and> length ''zz'' \<noteq> 5"
  by code_simp

section \<open>Loading the word list\<close>

lemma fold_load_line:
  "fold load_line ls acc =
     acc @ filter (\<lambda>w. length w = 5 \<and> isalpha w) (map (\<lambda>l. lower (strip l)) ls)"
  by (induction ls arbitrary: acc) (simp_all add: load_line_def Let_def)

text \<open>
  C8, as amended. The loader trims and lowercases each line, discards the lines whose
  trimmed and lowercased text is not exactly five alphabetic characters, and keeps the
  others in file order, one word for every kept line: every word of the result has five
  alphabetic characters and is its own lowercase, and a word written on two lines is in
  the result twice.
\<close>

theorem load_word_list_lines:
  "load_word_list (Some text) =
     Inr (filter (\<lambda>w. length w = 5 \<and> isalpha w)
            (map (\<lambda>l. lower (strip l)) (readlines (universal_newlines text)))) \<and>
   (\<forall>wl. load_word_list (Some text) = Inr wl \<longrightarrow>
      (\<forall>w \<in> set wl. length w = 5 \<and> isalpha w \<and> lower w = w))"
  by (auto simp add: load_word_list_def fold_load_line)

theorem load_word_list_lines_witness:
  "load_word_list (Some '' Crane \<newline>toolong\<newline>slate'') = Inr [''crane'', ''slate''] \<and>
   length ''crane'' = 5 \<and> isalpha ''crane'' \<and> lower ''crane'' = ''crane''"
proof -
  have e: "filter (\<lambda>w. length w = 5 \<and> isalpha w)
             (map (\<lambda>l. lower (strip l))
                (readlines (universal_newlines '' Crane \<newline>toolong\<newline>slate''))) =
           [''crane'', ''slate'']"
    by code_simp
  have t: "load_word_list (Some '' Crane \<newline>toolong\<newline>slate'') =
      Inr (filter (\<lambda>w. length w = 5 \<and> isalpha w)
             (map (\<lambda>l. lower (strip l))
                (readlines (universal_newlines '' Crane \<newline>toolong\<newline>slate'')))) \<and>
    (\<forall>wl. load_word_list (Some '' Crane \<newline>toolong\<newline>slate'') = Inr wl \<longrightarrow>
      (\<forall>w \<in> set wl. length w = 5 \<and> isalpha w \<and> lower w = w))"
    by (rule load_word_list_lines)
  then have l: "load_word_list (Some '' Crane \<newline>toolong\<newline>slate'') = Inr [''crane'', ''slate'']"
    using e by (simp only:)
  with t have "\<forall>w \<in> set [''crane'', ''slate'']. length w = 5 \<and> isalpha w \<and> lower w = w"
    by blast
  then have "length ''crane'' = 5 \<and> isalpha ''crane'' \<and> lower ''crane'' = ''crane''"
    by simp
  with l show ?thesis by blast
qed

text \<open>The same word on two lines, once capitalised and followed by a blank.\<close>

theorem load_word_list_duplicates_counterexample:
  "load_word_list (Some ''crane\<newline>Crane \<newline>'') = Inr [''crane'', ''crane''] \<and>
   \<not> distinct [''crane'', ''crane'']"
  by code_simp

section \<open>Resetting the page\<close>


section \<open>The two passes\<close>

lemma symbol_char_green [simp]: "symbol_char s = CHR ''g'' \<longleftrightarrow> s = Green"
  by (cases s) simp_all

lemma find_index_of:
  "find (\<lambda>j. f j = y) js =
     (if y \<in> set (map f js) then Some (js ! index_of (map f js) y) else None)"
  by (induction js) auto

lemma index_of_less: "y \<in> set xs \<Longrightarrow> index_of xs y < length xs"
  by (induction xs) auto

lemma pass_rel_first:
  assumes "length secret = 5"
  shows "pass_rel secret
           (fold (mark_green guess) [0..<5] (replicate 5 CHR ''b'', map Some secret))
           (exact_matches secret guess)"
  unfolding first_pass [OF assms] exact_matches_def pass_rel_def
  by (auto simp add: o_def if_distrib cong: if_cong)

lemma pass_rel_step:
  assumes "i < 5" and "pass_rel secret st sp"
  shows "pass_rel secret (mark_yellow guess i st) (displaced_match secret guess i sp)"
proof -
  obtain result sc where st: "st = (result, sc)" by (cases st)
  obtain pat consumed where sp: "sp = (pat, consumed)" by (cases sp)
  let ?f = "\<lambda>j. if consumed ! j then None else Some (secret ! j)"
  let ?y = "Some (guess ! i)"
  from assms(2) have len: "length pat = 5" "length consumed = 5"
    and res: "result = map symbol_char pat" and sc: "sc = map ?f [0..<5]"
    by (simp_all add: pass_rel_def st sp)
  have green: "result ! i = CHR ''g'' \<longleftrightarrow> pat ! i = Green"
    using assms(1) len res by simp
  have pred: "(\<lambda>j. \<not> consumed ! j \<and> secret ! j = guess ! i) = (\<lambda>j. ?f j = ?y)"
    by auto
  have fnd: "find (\<lambda>j. \<not> consumed ! j \<and> secret ! j = guess ! i) [0..<5] =
             (if ?y \<in> set sc then Some ([0..<5] ! index_of sc ?y) else None)"
    unfolding pred sc by (rule find_index_of)
  show ?thesis
  proof (cases "pat ! i = Green")
    case True
    then show ?thesis
      using assms(2) green by (simp add: st sp mark_yellow_def displaced_match_def)
  next
    case notgreen: False
    show ?thesis
    proof (cases "?y \<in> set sc")
      case False
      then show ?thesis
        using assms(2) green notgreen fnd
        by (simp add: st sp mark_yellow_def displaced_match_def)
    next
      case True
      define k where "k = index_of sc ?y"
      have k: "k < 5" using index_of_less [OF True] by (simp add: k_def sc)
      then have fk: "find (\<lambda>j. \<not> consumed ! j \<and> secret ! j = guess ! i) [0..<5] = Some k"
        using fnd True by (simp add: k_def)
      have my: "mark_yellow guess i st = (result[i := CHR ''y''], sc[k := None])"
        using green notgreen True by (simp add: st mark_yellow_def k_def)
      have dm: "displaced_match secret guess i sp = (pat[i := Yellow], consumed[k := True])"
        using notgreen fk by (simp add: sp displaced_match_def)
      have "result[i := CHR ''y''] = map symbol_char (pat[i := Yellow])"
        by (simp add: res map_update)
      moreover have "sc[k := None] =
          map (\<lambda>j. if consumed[k := True] ! j then None else Some (secret ! j)) [0..<5]"
        using k len by (intro nth_equalityI) (auto simp add: sc nth_list_update)
      ultimately show ?thesis
        using len by (simp add: my dm pass_rel_def)
    qed
  qed
qed

lemma pass_rel_fold:
  "\<forall>i \<in> set js. i < 5 \<Longrightarrow> pass_rel secret st sp \<Longrightarrow>
   pass_rel secret (fold (mark_yellow guess) js st) (fold (displaced_match secret guess) js sp)"
  by (induction js arbitrary: st sp) (simp_all add: pass_rel_step)

lemma pass_rel_result:
  "pass_rel secret st sp \<Longrightarrow> fst st = map symbol_char (fst sp)"
  by (cases st; cases sp) (simp add: pass_rel_def)

text \<open>
  C1. For every pair of 5-letter lowercase words, \<open>score_guess(secret, guess)\<close> returns the
  pattern of the two-pass algorithm: all grey at first, then the greens of pass 1 with
  their letters consumed, then, pass 1 being complete, a yellow at each position that is
  not green and whose letter has an unconsumed occurrence in the secret, the leftmost one
  being consumed.
\<close>

theorem score_guess_two_pass:
  assumes "length secret = 5" and "length guess = 5"
    and "lower secret = secret" and "lower guess = guess"
  shows "score_guess secret guess = Inr (map symbol_char (two_pass secret guess))"
proof -
  have "pass_rel secret
          (fold (mark_yellow guess) [0..<5]
             (fold (mark_green guess) [0..<5] (replicate 5 CHR ''b'', map Some secret)))
          (fold (displaced_match secret guess) [0..<5] (exact_matches secret guess))"
    by (rule pass_rel_fold) (simp_all add: pass_rel_first assms(1))
  then have "fst (fold (mark_yellow guess) [0..<5]
             (fold (mark_green guess) [0..<5] (replicate 5 CHR ''b'', map Some secret))) =
        map symbol_char (two_pass secret guess)"
    unfolding two_pass_def by (rule pass_rel_result)
  then show ?thesis
    using assms by (simp add: score_guess_def)
qed

theorem score_guess_two_pass_witness:
  "score_guess ''allow'' ''lolly'' = Inr (map symbol_char (two_pass ''allow'' ''lolly'')) \<and>
   two_pass ''allow'' ''lolly'' = [Yellow, Yellow, Green, Grey, Grey]"
proof -
  have l: "lower ''allow'' = ''allow''" "lower ''lolly'' = ''lolly''"
    by code_simp+
  have v: "two_pass ''allow'' ''lolly'' = [Yellow, Yellow, Green, Grey, Grey]"
    by code_simp
  have "score_guess ''allow'' ''lolly'' = Inr (map symbol_char (two_pass ''allow'' ''lolly''))"
    using l by (intro score_guess_two_pass) simp_all
  then show ?thesis using v by blast
qed

section \<open>Counting the symbols that are not grey\<close>

lemma unconsumed_member: "c \<in># unconsumed sc \<longleftrightarrow> Some c \<in> set sc"
  by (force simp add: unconsumed_def)

lemma nth_index_of: "y \<in> set xs \<Longrightarrow> xs ! index_of xs y = y"
  by (induction xs) auto

lemma unconsumed_update:
  assumes "Some c \<in> set sc"
  shows "unconsumed (sc[index_of sc (Some c) := None]) = unconsumed sc - {#c#}"
proof -
  let ?k = "index_of sc (Some c)"
  have k: "?k < length sc" "sc ! ?k = Some c"
    using assms by (simp_all add: index_of_less nth_index_of)
  have "mset (sc[?k := None]) = add_mset None (mset sc - {#Some c#})"
    using k by (simp add: mset_update)
  then have "filter_mset (\<lambda>x. x \<noteq> None) (mset (sc[?k := None])) =
             filter_mset (\<lambda>x. x \<noteq> None) (mset sc) - {#Some c#}"
    by (simp add: filter_diff_mset)
  moreover have "{#Some c#} \<subseteq># filter_mset (\<lambda>x. x \<noteq> None) (mset sc)"
    using assms by simp
  ultimately show ?thesis
    by (simp add: unconsumed_def image_mset_Diff)
qed

lemma unconsumed_map:
  "unconsumed (map (\<lambda>i. if Q i then None else Some (f i)) xs) =
     mset (map f (filter (\<lambda>i. \<not> Q i) xs))"
  by (induction xs) (simp_all add: unconsumed_def)

lemma second_pass_count:
  assumes "distinct js" and "\<forall>i \<in> set js. i < 5" and "length res = 5"
    and "\<forall>i \<in> set js. res ! i = CHR ''g'' \<or> res ! i = CHR ''b''"
  shows "card {i. i < 5 \<and> P (G ! i) \<and> fst (fold (mark_yellow G) js (res, sc)) ! i \<noteq> CHR ''b''} =
         card {i. i < 5 \<and> P (G ! i) \<and> res ! i \<noteq> CHR ''b''} +
         size (filter_mset P (unconsumed sc \<inter>#
                 mset (map ((!) G) (filter (\<lambda>i. res ! i \<noteq> CHR ''g'') js))))"
  using assms
proof (induction js arbitrary: res sc)
  case Nil
  then show ?case by simp
next
  case (Cons i js)
  have i: "i < 5" "i \<notin> set js" and dist: "distinct js" and lt: "\<forall>j \<in> set js. j < 5"
    using Cons.prems by simp_all
  have gb: "\<forall>j \<in> set js. res ! j = CHR ''g'' \<or> res ! j = CHR ''b''"
    using Cons.prems(4) by simp
  note IH = Cons.IH [OF dist lt]
  show ?case
  proof (cases "res ! i = CHR ''g''")
    case True
    then have "mark_yellow G i (res, sc) = (res, sc)"
      by (simp add: mark_yellow_def)
    then show ?thesis
      using IH [OF Cons.prems(3) gb, of sc] True by simp
  next
    case False
    then have b: "res ! i = CHR ''b''" using Cons.prems(4) by simp
    show ?thesis
    proof (cases "Some (G ! i) \<in> set sc")
      case no: False
      then have "mark_yellow G i (res, sc) = (res, sc)"
        by (simp add: mark_yellow_def)
      moreover have "G ! i \<notin># unconsumed sc"
        using no by (simp add: unconsumed_member)
      ultimately show ?thesis
        using IH [OF Cons.prems(3) gb, of sc] False by (simp add: inter_add_right1)
    next
      case yes: True
      let ?res = "res[i := CHR ''y'']"
      let ?sc = "sc[index_of sc (Some (G ! i)) := None]"
      let ?X = "{j. j < 5 \<and> P (G ! j) \<and> res ! j \<noteq> CHR ''b''}"
      have my: "mark_yellow G i (res, sc) = (?res, ?sc)"
        using False yes by (simp add: mark_yellow_def)
      have len: "length ?res = 5" using Cons.prems(3) by simp
      have same: "?res ! j = res ! j" if "j \<in> set js" for j
      proof -
        have "i \<noteq> j" using that i(2) by blast
        then show ?thesis by simp
      qed
      have gb': "\<forall>j \<in> set js. ?res ! j = CHR ''g'' \<or> ?res ! j = CHR ''b''"
        using gb same by simp
      have flt: "filter (\<lambda>j. ?res ! j \<noteq> CHR ''g'') js = filter (\<lambda>j. res ! j \<noteq> CHR ''g'') js"
        by (rule filter_cong) (simp_all add: same)
      have X: "{j. j < 5 \<and> P (G ! j) \<and> ?res ! j \<noteq> CHR ''b''} =
               (if P (G ! i) then insert i ?X else ?X)"
        using i(1) Cons.prems(3) b by (auto simp add: nth_list_update)
      have "finite ?X" by simp
      moreover have "i \<notin> ?X" using b by simp
      ultimately have cardX: "card {j. j < 5 \<and> P (G ! j) \<and> ?res ! j \<noteq> CHR ''b''} =
               card ?X + (if P (G ! i) then 1 else 0)"
        unfolding X by simp
      have mem: "G ! i \<in># unconsumed sc"
        using yes by (simp add: unconsumed_member)
      have inter: "unconsumed sc \<inter># mset (map ((!) G) (filter (\<lambda>j. res ! j \<noteq> CHR ''g'') (i # js))) =
            add_mset (G ! i) (unconsumed ?sc \<inter># mset (map ((!) G) (filter (\<lambda>j. res ! j \<noteq> CHR ''g'') js)))"
        using False mem by (simp add: inter_add_right2 unconsumed_update [OF yes])
      have "card {j. j < 5 \<and> P (G ! j) \<and> fst (fold (mark_yellow G) (i # js) (res, sc)) ! j \<noteq> CHR ''b''} =
            card {j. j < 5 \<and> P (G ! j) \<and> ?res ! j \<noteq> CHR ''b''} +
            size (filter_mset P (unconsumed ?sc \<inter>#
                 mset (map ((!) G) (filter (\<lambda>j. res ! j \<noteq> CHR ''g'') js))))"
        using IH [OF len gb', of ?sc] by (simp add: my flt)
      then show ?thesis
        unfolding cardX inter by simp
    qed
  qed
qed

lemma mset_map_partition:
  "mset (map f xs) = mset (map f (filter Q xs)) + mset (map f (filter (\<lambda>x. \<not> Q x) xs))"
  by (induction xs) simp_all

lemma length_filter_upt:
  "length (filter Q [0..<n]) = card {i. i < n \<and> Q i}"
proof -
  have "length (filter Q [0..<n]) = card (set (filter Q [0..<n]))"
    by (simp only: distinct_card [OF distinct_filter [OF distinct_upt]])
  also have "set (filter Q [0..<n]) = {i. i < n \<and> Q i}"
    by auto
  finally show ?thesis .
qed

lemma size_filter_mset_map:
  "size (filter_mset P (mset (map f (filter Q [0..<n])))) = card {i. i < n \<and> P (f i) \<and> Q i}"
proof -
  have "size (filter_mset P (mset (map f (filter Q [0..<n])))) =
        length (filter P (map f (filter Q [0..<n])))"
    by (simp only: mset_filter [symmetric] size_mset)
  also have "\<dots> = length (filter (\<lambda>i. Q i \<and> P (f i)) [0..<n])"
    by (simp only: filter_map length_map filter_filter o_def)
  also have "\<dots> = card (set (filter (\<lambda>i. Q i \<and> P (f i)) [0..<n]))"
    by (simp only: distinct_card [OF distinct_filter [OF distinct_upt]])
  also have "set (filter (\<lambda>i. Q i \<and> P (f i)) [0..<n]) = {i. i < n \<and> P (f i) \<and> Q i}"
    by auto
  finally show ?thesis .
qed

lemma score_count:
  assumes "length S = 5" and "length G = 5"
  shows "card {i. i < 5 \<and> P (G ! i) \<and>
           fst (fold (mark_yellow G) [0..<5]
                  (fold (mark_green G) [0..<5] (replicate 5 CHR ''b'', map Some S))) ! i \<noteq> CHR ''b''} =
         size (filter_mset P (mset S \<inter># mset G))"
proof -
  let ?eq = "\<lambda>i. G ! i = S ! i"
  let ?res = "map (\<lambda>i. if ?eq i then CHR ''g'' else CHR ''b'') [0..<5]"
  let ?sc = "map (\<lambda>i. if ?eq i then None else Some (S ! i)) [0..<5]"
  let ?M = "mset (map ((!) G) (filter ?eq [0..<5]))"
  let ?A = "mset (map ((!) S) (filter (\<lambda>i. \<not> ?eq i) [0..<5]))"
  let ?B = "mset (map ((!) G) (filter (\<lambda>i. \<not> ?eq i) [0..<5]))"
  have eqm: "map ((!) S) (filter ?eq [0..<5]) = map ((!) G) (filter ?eq [0..<5])"
    by (rule map_cong) simp_all
  have nS: "map ((!) S) [0..<5] = S"
    using map_nth [of S] unfolding assms(1) .
  have nG: "map ((!) G) [0..<5] = G"
    using map_nth [of G] unfolding assms(2) .
  have S: "mset S = ?M + ?A"
    using mset_map_partition [of "(!) S" "[0..<5]" ?eq] unfolding nS eqm .
  have G: "mset G = ?M + ?B"
    using mset_map_partition [of "(!) G" "[0..<5]" ?eq] unfolding nG .
  have inter: "mset S \<inter># mset G = ?M + (?A \<inter># ?B)"
    unfolding S G by (simp add: inter_union_distrib_right)
  have fl: "filter (\<lambda>i. ?res ! i \<noteq> CHR ''g'') [0..<5] = filter (\<lambda>i. \<not> ?eq i) [0..<5]"
    by (rule filter_cong) simp_all
  have c0: "{i. i < 5 \<and> P (G ! i) \<and> ?res ! i \<noteq> CHR ''b''} = {i. i < 5 \<and> P (G ! i) \<and> ?eq i}"
    by (auto split: if_splits)
  have "card {i. i < 5 \<and> P (G ! i) \<and> fst (fold (mark_yellow G) [0..<5] (?res, ?sc)) ! i \<noteq> CHR ''b''} =
        card {i. i < 5 \<and> P (G ! i) \<and> ?res ! i \<noteq> CHR ''b''} +
        size (filter_mset P (unconsumed ?sc \<inter>#
                 mset (map ((!) G) (filter (\<lambda>i. ?res ! i \<noteq> CHR ''g'') [0..<5]))))"
    by (rule second_pass_count) simp_all
  also have "\<dots> = card {i. i < 5 \<and> P (G ! i) \<and> ?eq i} + size (filter_mset P (?A \<inter># ?B))"
    unfolding fl c0 unconsumed_map ..
  also have "card {i. i < 5 \<and> P (G ! i) \<and> ?eq i} = size (filter_mset P ?M)"
    by (rule size_filter_mset_map [symmetric])
  finally show ?thesis
    unfolding first_pass [OF assms(1)] inter by simp
qed

lemma mark_yellow_shape:
  assumes "length res = 5" and "set res \<subseteq> {CHR ''b'', CHR ''g'', CHR ''y''}"
  shows "length (fst (mark_yellow G i (res, sc))) = 5 \<and>
         set (fst (mark_yellow G i (res, sc))) \<subseteq> {CHR ''b'', CHR ''g'', CHR ''y''}"
  using assms set_update_subset_insert [of res i "CHR ''y''"]
  by (auto simp add: mark_yellow_def)

lemma second_pass_shape:
  assumes "length (fst st) = 5" and "set (fst st) \<subseteq> {CHR ''b'', CHR ''g'', CHR ''y''}"
  shows "length (fst (fold (mark_yellow G) js st)) = 5 \<and>
         set (fst (fold (mark_yellow G) js st)) \<subseteq> {CHR ''b'', CHR ''g'', CHR ''y''}"
  using assms
proof (induction js arbitrary: st)
  case Nil
  then show ?case by simp
next
  case (Cons i js)
  obtain res sc where st: "st = (res, sc)" by (cases st)
  show ?case
    using Cons.IH [of "mark_yellow G i st"] mark_yellow_shape [of res G i sc] Cons.prems
    by (simp add: st)
qed

text \<open>
  C4. For every pair of length-5 words \<open>S\<close> and \<open>G\<close>, the number of greens and yellows in
  \<open>score_guess(S, G)\<close> is the size of the multiset intersection of their (lowercased)
  letters, the sum over the letters of the smaller of the two multiplicities; and the
  greens and yellows standing under one letter of the guess never exceed the smaller of
  that letter's two multiplicities.
\<close>

theorem score_guess_shared_letters:
  assumes "length S = 5" and "length G = 5"
  shows "\<exists>p. score_guess S G = Inr p \<and>
           length (filter (\<lambda>x. x = CHR ''g'' \<or> x = CHR ''y'') p) =
             size (mset (lower S) \<inter># mset (lower G)) \<and>
           (\<forall>c. length (filter (\<lambda>i. lower G ! i = c \<and> (p ! i = CHR ''g'' \<or> p ! i = CHR ''y'')) [0..<5])
                 \<le> min (count (mset (lower S)) c) (count (mset (lower G)) c))"
proof -
  let ?S = "lower S" and ?G = "lower G"
  define p where "p = fst (fold (mark_yellow ?G) [0..<5]
                  (fold (mark_green ?G) [0..<5] (replicate 5 CHR ''b'', map Some ?S)))"
  have len: "length ?S = 5" "length ?G = 5" using assms by simp_all
  have score: "score_guess S G = Inr p"
    using len by (simp add: score_guess_def p_def Let_def)
  have shape: "length p = 5 \<and> set p \<subseteq> {CHR ''b'', CHR ''g'', CHR ''y''}"
    unfolding p_def first_pass [OF len(1)]
    by (rule second_pass_shape) auto
  then have gy: "(x = CHR ''g'' \<or> x = CHR ''y'') \<longleftrightarrow> x \<noteq> CHR ''b''" if "x \<in> set p" for x
    using that by auto
  have cnt: "card {i. i < 5 \<and> P (?G ! i) \<and> p ! i \<noteq> CHR ''b''} =
             size (filter_mset P (mset ?S \<inter># mset ?G))" for P
    unfolding p_def by (rule score_count [OF len])
  have "length (filter (\<lambda>x. x = CHR ''g'' \<or> x = CHR ''y'') p) =
        length (filter (\<lambda>x. x \<noteq> CHR ''b'') p)"
    by (rule arg_cong [where f = length], rule filter_cong) (simp_all add: gy)
  also have "\<dots> = card {i. i < 5 \<and> p ! i \<noteq> CHR ''b''}"
    using shape by (simp add: length_filter_conv_card)
  also have "\<dots> = size (mset ?S \<inter># mset ?G)"
    using cnt [of "\<lambda>_. True"] by simp
  finally have total: "length (filter (\<lambda>x. x = CHR ''g'' \<or> x = CHR ''y'') p) =
             size (mset ?S \<inter># mset ?G)" .
  have letter: "length (filter (\<lambda>i. ?G ! i = c \<and> (p ! i = CHR ''g'' \<or> p ! i = CHR ''y'')) [0..<5])
                 = min (count (mset ?S) c) (count (mset ?G) c)" for c
  proof -
    have "filter (\<lambda>i. ?G ! i = c \<and> (p ! i = CHR ''g'' \<or> p ! i = CHR ''y'')) [0..<5] =
          filter (\<lambda>i. ?G ! i = c \<and> p ! i \<noteq> CHR ''b'') [0..<5]"
      by (rule filter_cong) (use shape gy in auto)
    moreover have "length (filter (\<lambda>i. ?G ! i = c \<and> p ! i \<noteq> CHR ''b'') [0..<5]) =
          card {i. i < 5 \<and> ?G ! i = c \<and> p ! i \<noteq> CHR ''b''}"
      by (rule length_filter_upt)
    moreover have "card {i. i < 5 \<and> ?G ! i = c \<and> p ! i \<noteq> CHR ''b''} =
          size (filter_mset (\<lambda>x. x = c) (mset ?S \<inter># mset ?G))"
      by (rule cnt)
    ultimately show ?thesis
      by (simp add: filter_eq_replicate_mset)
  qed
  show ?thesis
    using score total letter by (intro exI [of _ p]) simp
qed

theorem score_guess_shared_letters_witness:
  "score_guess ''allow'' ''lolly'' = Inr ''yygbb'' \<and>
   length (filter (\<lambda>x. x = CHR ''g'' \<or> x = CHR ''y'') ''yygbb'') =
     size (mset (lower ''allow'') \<inter># mset (lower ''lolly'')) \<and>
   length (filter (\<lambda>i. lower ''lolly'' ! i = CHR ''l'' \<and>
                      (''yygbb'' ! i = CHR ''g'' \<or> ''yygbb'' ! i = CHR ''y'')) [0..<5])
     \<le> min (count (mset (lower ''allow'')) CHR ''l'') (count (mset (lower ''lolly'')) CHR ''l'')"
proof -
  have v: "score_guess ''allow'' ''lolly'' = Inr ''yygbb''"
    by code_simp
  obtain p where p: "score_guess ''allow'' ''lolly'' = Inr p"
      "length (filter (\<lambda>x. x = CHR ''g'' \<or> x = CHR ''y'') p) =
         size (mset (lower ''allow'') \<inter># mset (lower ''lolly''))"
      "\<forall>c. length (filter (\<lambda>i. lower ''lolly'' ! i = c \<and> (p ! i = CHR ''g'' \<or> p ! i = CHR ''y'')) [0..<5])
            \<le> min (count (mset (lower ''allow'')) c) (count (mset (lower ''lolly'')) c)"
    using score_guess_shared_letters [of "''allow''" "''lolly''"] by auto
  from p(1) v have "p = ''yygbb''" by (simp only: sum.inject)
  with p v show ?thesis by blast
qed

end
